theory Spec2Isabelle
  imports
    Main
    "HOL-Library.Word"
    "HOL-Library.Char_ord"
    "HOL-Library.List_Lexorder"
    "HOL-Library.Multiset"
begin

chapter \<open>talogo: the task log and its daily summary\<close>

text \<open>
  The program has two halves. \<open>talogo log TITLE {SUBTITLES}\<close> times a task and, when
  stopped, appends one row per calendar day to a CSV log (\<open>logToCSV\<close> in
  \<open>cmd/talogo/cmd/log.go\<close>). \<open>talogo summary\<close> reads the log back and prints, per day,
  the hours per task and subtask (\<open>generateSummary\<close> and \<open>printSubtasks\<close>, in the file of
  the \<open>summary\<close> command of the same package).

  Both halves lean on Go's standard library: package \<open>time\<close> for instants, calendar
  dates and the RFC 3339 text form, \<open>strconv.Atoi\<close> for decimal integers and
  \<open>encoding/csv\<close> for the file format. The first sections model the parts of the
  library the program calls; the later ones embed the program itself and state its
  properties.
\<close>

section \<open>Package time: the proleptic Gregorian calendar\<close>

text \<open>
  Go counts days and converts them to a civil date by peeling off cycles of 400, 100, 4
  and 1 years, then looks the month up in the cumulative table \<open>daysBefore\<close>. Days are
  counted here from 1970-01-01 (day 0); integer division rounds down, so days before the
  epoch need no special case.
\<close>

definition isLeap :: "int \<Rightarrow> bool" where
  "isLeap year \<longleftrightarrow> year mod 4 = 0 \<and> (year mod 100 \<noteq> 0 \<or> year mod 400 = 0)"

definition daysBefore :: "int \<Rightarrow> int" where
  \<comment> \<open>days of a common year before the end of month \<open>m\<close>; \<open>daysBefore 0 = 0\<close>\<close>
  "daysBefore m = [0, 31, 59, 90, 120, 151, 181, 212, 243, 273, 304, 334, 365] ! nat m"

definition daysIn :: "int \<Rightarrow> bool \<Rightarrow> int" where
  "daysIn m leap = (if m = 2 \<and> leap then 29 else daysBefore m - daysBefore (m - 1))"

definition month_of_yday :: "int \<Rightarrow> int \<times> int" where
  \<comment> \<open>month and day of month of a day of a common year: guess the month as if
      every month had 31 days, then step forward one month where the guess is short\<close>
  "month_of_yday day =
     (let m = day div 31; end = daysBefore (m + 1)
      in if day \<ge> end then (m + 2, day - end + 1) else (m + 1, day - daysBefore m + 1))"

definition month_day :: "bool \<Rightarrow> int \<Rightarrow> int \<times> int" where
  "month_day leap yday =
     (if leap \<and> yday = 59 then (2, 29)
      else month_of_yday (if leap \<and> yday > 59 then yday - 1 else yday))"

definition absDate :: "int \<Rightarrow> int \<times> int \<times> int" where
  \<comment> \<open>year, month, day of the day numbered \<open>z\<close>\<close>
  "absDate z =
     (let d0 = z + 719162;
          n400 = d0 div 146097;
          d1 = d0 - 146097 * n400;
          q100 = d1 div 36524;
          n100 = q100 - q100 div 4;
          d2 = d1 - 36524 * n100;
          n4 = d2 div 1461;
          d3 = d2 - 1461 * n4;
          q1 = d3 div 365;
          n1 = q1 - q1 div 4;
          yday = d3 - 365 * n1;
          year = 400 * n400 + 100 * n100 + 4 * n4 + n1 + 1;
          (month, day) = month_day (isLeap year) yday
      in (year, month, day))"

definition daysSinceEpoch :: "int \<Rightarrow> int" where
  \<comment> \<open>the number of the day on which \<open>year\<close> begins\<close>
  "daysSinceEpoch year =
     (let y = year - 1 in 365 * y + y div 4 - y div 100 + y div 400 - 719162)"

definition dateToDays :: "int \<Rightarrow> int \<Rightarrow> int \<Rightarrow> int" where
  \<comment> \<open>the day number of a civil date, as \<open>time.Date\<close> computes it: a month outside 1..12
      carries into the year, a day outside the month carries into the following months\<close>
  "dateToDays year month day =
     (let m = month - 1;
          year' = year + m div 12;
          m' = m mod 12;
          d = daysSinceEpoch year' + daysBefore m'
                + (if isLeap year' \<and> m' + 1 \<ge> 3 then 1 else 0)
      in d + (day - 1))"

subsection \<open>Day numbers and civil dates are inverse\<close>

lemma div_decomp: "0 \<le> r \<Longrightarrow> r < k \<Longrightarrow> (k * q + r) div k = (q::int)"
  by (simp add: div_pos_pos_trivial)

lemma year_days:
  assumes "0 \<le> b" "b \<le> 3" "0 \<le> c" "c \<le> 24" "0 \<le> e" "e \<le> (3::int)"
    and "y = 400 * a + 100 * b + 4 * c + e"
  shows "365 * y + y div 4 - y div 100 + y div 400
          = 146097 * a + 36524 * b + 1461 * c + 365 * e"
proof -
  have "y = 4 * (100 * a + 25 * b + c) + e" using assms by simp
  then have 1: "y div 4 = 100 * a + 25 * b + c"
    using assms div_decomp [of e 4] by simp
  have "y = 100 * (4 * a + b) + (4 * c + e)" using assms by simp
  moreover have "0 \<le> 4 * c + e" "4 * c + e < 100" using assms by linarith+
  ultimately have 2: "y div 100 = 4 * a + b"
    using div_decomp [of "4 * c + e" 100] by simp
  have "y = 400 * a + (100 * b + 4 * c + e)" using assms by simp
  moreover have "0 \<le> 100 * b + 4 * c + e" "100 * b + 4 * c + e < 400" using assms by linarith+
  ultimately have 3: "y div 400 = a"
    using div_decomp [of "100 * b + 4 * c + e" 400] by simp
  show ?thesis unfolding 1 2 3 using assms by simp
qed

lemma year_leap:
  assumes "0 \<le> b" "b \<le> 3" "0 \<le> c" "c \<le> 24" "0 \<le> e" "e \<le> (3::int)"
    and "y = 400 * a + 100 * b + 4 * c + e + 1"
  shows "isLeap y \<longleftrightarrow> e = 3 \<and> (c \<noteq> 24 \<or> b = 3)"
proof -
  have "y = 4 * (100 * a + 25 * b + c) + (e + 1)" using assms by simp
  then have 1: "y mod 4 = (e + 1) mod 4"
    by (metis mod_mult_self4)
  have "y = 100 * (4 * a + b) + (4 * c + e + 1)" using assms by simp
  then have 2: "y mod 100 = (4 * c + e + 1) mod 100"
    by (metis mod_mult_self4)
  have "y = 400 * a + (100 * b + 4 * c + e + 1)" using assms by simp
  then have 3: "y mod 400 = (100 * b + 4 * c + e + 1) mod 400"
    by (metis mod_mult_self4)
  have e: "e = 0 \<or> e = 1 \<or> e = 2 \<or> e = 3" using assms by linarith
  have 4: "(e + 1) mod 4 = 0 \<longleftrightarrow> e = 3" using e by auto
  have 5: "(4 * c + e + 1) mod 100 = 0 \<longleftrightarrow> e = 3 \<and> c = 24"
  proof -
    have "0 < 4 * c + e + 1" "4 * c + e + 1 \<le> 100" using assms by linarith+
    then have "(4 * c + e + 1) mod 100 = 0 \<longleftrightarrow> 4 * c + e + 1 = 100"
      by (metis mod_pos_pos_trivial mod_self less_le not_less order.strict_implies_order zless_imp_add1_zle)
    also have "\<dots> \<longleftrightarrow> e = 3 \<and> c = 24" using assms e by linarith
    finally show ?thesis .
  qed
  have 6: "(100 * b + 4 * c + e + 1) mod 400 = 0 \<longleftrightarrow> e = 3 \<and> c = 24 \<and> b = 3"
  proof -
    have "0 < 100 * b + 4 * c + e + 1" "100 * b + 4 * c + e + 1 \<le> 400" using assms by linarith+
    then have "(100 * b + 4 * c + e + 1) mod 400 = 0 \<longleftrightarrow> 100 * b + 4 * c + e + 1 = 400"
      by (metis mod_pos_pos_trivial mod_self less_le not_less order.strict_implies_order zless_imp_add1_zle)
    also have "\<dots> \<longleftrightarrow> e = 3 \<and> c = 24 \<and> b = 3" using assms e by linarith
    finally show ?thesis .
  qed
  show ?thesis unfolding isLeap_def 1 2 3 4 5 6 by blast
qed


lemma divmod_step:
  fixes x k :: int
  assumes "0 < k"
  obtains q r where "x div k = q" "x = k * q + r" "0 \<le> r" "r < k"
proof
  show "x div k = x div k" ..
  show "x = k * (x div k) + x mod k" by simp
  show "0 \<le> x mod k" using assms by simp
  show "x mod k < k" using assms by simp
qed

lemma cap3:
  fixes q :: int
  assumes "0 \<le> q" "q \<le> 4"
  shows "q - q div 4 = (if q = 4 then 3 else q)"
proof -
  have "q = 0 \<or> q = 1 \<or> q = 2 \<or> q = 3 \<or> q = 4" using assms by linarith
  then show ?thesis by auto
qed

lemma month_of_yday_inverse:
  assumes "0 \<le> day" "day \<le> 364" and "month_of_yday day = (m, d)"
  shows "daysBefore (m - 1) + d - 1 = day
         \<and> 1 \<le> m \<and> m \<le> 12 \<and> 1 \<le> d \<and> d \<le> daysBefore m - daysBefore (m - 1)"
proof -
  obtain q r where q: "day div 31 = q" "day = 31 * q + r" "0 \<le> r" "r < 31"
    using divmod_step [of 31 day] by auto
  have "0 \<le> q \<and> q \<le> 11" using assms q by linarith
  then have qc: "q = 0 \<or> q = 1 \<or> q = 2 \<or> q = 3 \<or> q = 4 \<or> q = 5 \<or> q = 6 \<or> q = 7
      \<or> q = 8 \<or> q = 9 \<or> q = 10 \<or> q = 11" by arith
  have md: "(m, d) = (if day \<ge> daysBefore (q + 1) then (q + 2, day - daysBefore (q + 1) + 1)
                      else (q + 1, day - daysBefore q + 1))"
    using assms(3) q(1) by (simp add: month_of_yday_def Let_def)
  from qc show ?thesis
  proof (elim disjE)
    assume "q = 0" then show ?thesis using md q assms(1,2)
      by (auto simp: daysBefore_def split: if_splits)
  next
    assume "q = 1" then show ?thesis using md q assms(1,2)
      by (auto simp: daysBefore_def split: if_splits)
  next
    assume "q = 2" then show ?thesis using md q assms(1,2)
      by (auto simp: daysBefore_def split: if_splits)
  next
    assume "q = 3" then show ?thesis using md q assms(1,2)
      by (auto simp: daysBefore_def split: if_splits)
  next
    assume "q = 4" then show ?thesis using md q assms(1,2)
      by (auto simp: daysBefore_def split: if_splits)
  next
    assume "q = 5" then show ?thesis using md q assms(1,2)
      by (auto simp: daysBefore_def split: if_splits)
  next
    assume "q = 6" then show ?thesis using md q assms(1,2)
      by (auto simp: daysBefore_def split: if_splits)
  next
    assume "q = 7" then show ?thesis using md q assms(1,2)
      by (auto simp: daysBefore_def split: if_splits)
  next
    assume "q = 8" then show ?thesis using md q assms(1,2)
      by (auto simp: daysBefore_def split: if_splits)
  next
    assume "q = 9" then show ?thesis using md q assms(1,2)
      by (auto simp: daysBefore_def split: if_splits)
  next
    assume "q = 10" then show ?thesis using md q assms(1,2)
      by (auto simp: daysBefore_def split: if_splits)
  next
    assume "q = 11" then show ?thesis using md q assms(1,2)
      by (auto simp: daysBefore_def split: if_splits)
  qed
qed

lemma month_day_inverse:
  assumes "0 \<le> yday" "yday \<le> (if leap then 365 else 364)"
    and "month_day leap yday = (m, d)"
  shows "daysBefore (m - 1) + (if leap \<and> 3 \<le> m then 1 else 0) + d - 1 = yday
         \<and> 1 \<le> m \<and> m \<le> 12 \<and> 1 \<le> d \<and> d \<le> daysIn m leap"
proof (cases "leap \<and> yday = 59")
  case True
  then show ?thesis using assms by (simp add: month_day_def daysBefore_def daysIn_def)
next
  case False
  define day where "day = (if leap \<and> yday > 59 then yday - 1 else yday)"
  have dr: "0 \<le> day" "day \<le> 364" using assms False by (auto simp: day_def split: if_splits)
  have "month_of_yday day = (m, d)" using assms(3) False by (simp add: month_day_def day_def)
  note inv = month_of_yday_inverse [OF dr this]
  show ?thesis
  proof (cases "leap \<and> yday > 59")
    case True
    then have "day = yday - 1" by (simp add: day_def)
    moreover have "3 \<le> m"
    proof (rule ccontr)
      assume "\<not> 3 \<le> m"
      then have "m = 1 \<or> m = 2" using inv by linarith
      then show False using inv True \<open>day = yday - 1\<close>
        by (auto simp: daysBefore_def)
    qed
    ultimately show ?thesis using inv True by (auto simp: daysIn_def)
  next
    case nl: False
    then have dy: "day = yday" by (simp add: day_def)
    show ?thesis
    proof (cases leap)
      case True
      then have "yday < 59" using nl False by auto
      have "m < 3"
      proof (rule ccontr)
        assume "\<not> m < 3"
        then have "3 \<le> m" by simp
        have "daysBefore 2 \<le> daysBefore (m - 1)"
        proof -
          have "m = 3 \<or> m = 4 \<or> m = 5 \<or> m = 6 \<or> m = 7 \<or> m = 8 \<or> m = 9 \<or> m = 10
             \<or> m = 11 \<or> m = 12" using \<open>3 \<le> m\<close> inv by arith
          then show ?thesis by (auto simp: daysBefore_def)
        qed
        then show False using inv dy \<open>yday < 59\<close> by (simp add: daysBefore_def)
      qed
      moreover have "m = 2 \<Longrightarrow> d \<le> 29" using inv by (auto simp: daysBefore_def)
      ultimately show ?thesis using inv dy True by (auto simp: daysIn_def)
    next
      case False
      then show ?thesis using inv dy by (auto simp: daysIn_def)
    qed
  qed
qed


lemma absDate_decomp:
  fixes z :: int
  obtains a b c e yday where
    "z + 719162 = 146097 * a + 36524 * b + 1461 * c + 365 * e + yday"
    "0 \<le> b" "b \<le> 3" "0 \<le> c" "c \<le> 24" "0 \<le> e" "e \<le> 3" "0 \<le> yday"
    "yday \<le> (if e = 3 \<and> (c \<noteq> 24 \<or> b = 3) then 365 else 364)"
    "absDate z = (let year = 400 * a + 100 * b + 4 * c + e + 1;
                      (month, day) = month_day (isLeap year) yday in (year, month, day))"
proof -
  define d0 where "d0 = z + 719162"
  obtain a d1 where a: "d0 div 146097 = a" "d0 = 146097 * a + d1" "0 \<le> d1" "d1 < 146097"
    using divmod_step [of 146097 d0] by auto
  obtain q100 r100 where q100: "d1 div 36524 = q100" "d1 = 36524 * q100 + r100"
      "0 \<le> r100" "r100 < 36524"
    using divmod_step [of 36524 d1] by auto
  have q100r: "0 \<le> q100" "q100 \<le> 4" using a q100 by linarith+
  define b where "b = q100 - q100 div 4"
  have b: "b = (if q100 = 4 then 3 else q100)" unfolding b_def using q100r by (rule cap3)
  have br: "0 \<le> b" "b \<le> 3" using b q100r by (auto split: if_splits)
  define d2 where "d2 = d1 - 36524 * b"
  have d2: "0 \<le> d2" "d2 \<le> 36524" "b < 3 \<Longrightarrow> d2 < 36524"
    using a q100 q100r b by (auto simp: d2_def split: if_splits)
  obtain c d3 where c: "d2 div 1461 = c" "d2 = 1461 * c + d3" "0 \<le> d3" "d3 < 1461"
    using divmod_step [of 1461 d2] by auto
  have cr: "0 \<le> c" "c \<le> 24" using c d2 by linarith+
  have d3: "c = 24 \<Longrightarrow> b < 3 \<Longrightarrow> d3 < 1460" using c d2 by linarith
  obtain q1 r1 where q1: "d3 div 365 = q1" "d3 = 365 * q1 + r1" "0 \<le> r1" "r1 < 365"
    using divmod_step [of 365 d3] by auto
  have q1r: "0 \<le> q1" "q1 \<le> 4" using c q1 by linarith+
  define e where "e = q1 - q1 div 4"
  have e: "e = (if q1 = 4 then 3 else q1)" unfolding e_def using q1r by (rule cap3)
  define yday where "yday = d3 - 365 * e"
  have yd: "0 \<le> yday" using q1 e by (auto simp: yday_def split: if_splits)
  have yd2: "yday \<le> (if e = 3 \<and> (c \<noteq> 24 \<or> b = 3) then 365 else 364)"
  proof (cases "q1 = 4")
    case True
    then have "d3 = 1460" "e = 3" using q1 c e by auto
    moreover from this have "c \<noteq> 24 \<or> b = 3" using d3 br by fastforce
    ultimately show ?thesis by (simp add: yday_def)
  next
    case False
    then have "yday = r1" using q1 e by (simp add: yday_def)
    then show ?thesis using q1 by simp
  qed
  show thesis
  proof (rule that [of a b c e yday])
    show "z + 719162 = 146097 * a + 36524 * b + 1461 * c + 365 * e + yday"
      using a(2) c(2) by (simp add: d0_def d2_def yday_def)
    show "0 \<le> b" "b \<le> 3" by (rule br)+
    show "0 \<le> c" "c \<le> 24" by (rule cr)+
    show "0 \<le> e" "e \<le> 3" using e q1r by (auto split: if_splits)
    show "0 \<le> yday" by (rule yd)
    show "yday \<le> (if e = 3 \<and> (c \<noteq> 24 \<or> b = 3) then 365 else 364)" by (rule yd2)
    have d1': "d0 - 146097 * a = d1" using a(2) by simp
    have d3': "d2 - 1461 * c = d3" using c(2) by simp
    show "absDate z = (let year = 400 * a + 100 * b + 4 * c + e + 1;
                      (month, day) = month_day (isLeap year) yday in (year, month, day))"
      unfolding absDate_def Let_def d0_def [symmetric] a(1) d1' q100(1) b_def [symmetric]
        d2_def [symmetric] c(1) d3' q1(1) e_def [symmetric] yday_def [symmetric] ..
  qed
qed

lemma dateToDays_absDate:
  assumes "absDate z = (y, m, d)"
  shows "dateToDays y m (d + k) = z + k
         \<and> 1 \<le> m \<and> m \<le> 12 \<and> 1 \<le> d \<and> d \<le> daysIn m (isLeap y)"
proof -
  obtain a b c e yday where dc:
    "z + 719162 = 146097 * a + 36524 * b + 1461 * c + 365 * e + yday"
    "0 \<le> b" "b \<le> 3" "0 \<le> c" "c \<le> 24" "0 \<le> e" "e \<le> 3" "0 \<le> yday"
    "yday \<le> (if e = 3 \<and> (c \<noteq> 24 \<or> b = 3) then 365 else 364)"
    "absDate z = (let year = 400 * a + 100 * b + 4 * c + e + 1;
                      (month, day) = month_day (isLeap year) yday in (year, month, day))"
    by (rule absDate_decomp)
  have y: "y = 400 * a + 100 * b + 4 * c + e + 1"
    using assms dc(10) by (simp add: Let_def split: prod.splits)
  have lp: "isLeap y \<longleftrightarrow> e = 3 \<and> (c \<noteq> 24 \<or> b = 3)"
    using dc(2-7) y by (rule year_leap)
  have md: "month_day (isLeap y) yday = (m, d)"
    using assms dc(10) y by (simp add: Let_def split: prod.splits)
  have "yday \<le> (if isLeap y then 365 else 364)" using dc(9) lp by simp
  note inv = month_day_inverse [OF dc(8) this md]
  have yd: "365 * (y - 1) + (y - 1) div 4 - (y - 1) div 100 + (y - 1) div 400
          = 146097 * a + 36524 * b + 1461 * c + 365 * e"
    using dc(2-7) by (rule year_days) (simp add: y)
  have m12: "(m - 1) div 12 = 0" "(m - 1) mod 12 = m - 1"
    using inv by (simp_all add: div_pos_pos_trivial mod_pos_pos_trivial)
  have "dateToDays y m (d + k) = z + k"
    using inv yd dc(1) unfolding dateToDays_def daysSinceEpoch_def Let_def m12
    by (simp split: if_splits)
  then show ?thesis using inv by simp
qed

section \<open>Package time: instants, durations and zones\<close>

text \<open>
  A \<open>time.Duration\<close> is a signed 64-bit count of nanoseconds; its arithmetic wraps.
  A \<open>time.Time\<close> is an instant together with a \<open>Location\<close>. The instant is kept as the
  count of nanoseconds since 1970-01-01T00:00:00Z, without bound (Go's range of
  representable instants is far wider than any log). The location is kept as a fixed
  offset in seconds east of UTC, which is all that the log's text form records of it.
\<close>

type_synonym Duration = "64 word"

definition Nanosecond :: Duration where
  "Nanosecond = 1"

definition Second :: Duration where
  "Second = 1000000000"

record Time =
  unixNano :: int
  offset :: int

definition Add :: "Time \<Rightarrow> Duration \<Rightarrow> Time" where
  "Add t d = t\<lparr>unixNano := unixNano t + sint d\<rparr>"

definition After :: "Time \<Rightarrow> Time \<Rightarrow> bool" where
  "After t u \<longleftrightarrow> unixNano u < unixNano t"

definition Equal :: "Time \<Rightarrow> Time \<Rightarrow> bool" where
  "Equal t u \<longleftrightarrow> unixNano t = unixNano u"

definition localSeconds :: "Time \<Rightarrow> int" where
  \<comment> \<open>whole seconds since the epoch on the wall clock of the time's own zone\<close>
  "localSeconds t = unixNano t div 1000000000 + offset t"

definition Date :: "Time \<Rightarrow> int \<times> int \<times> int" where
  \<comment> \<open>\<open>t.Date()\<close>: year, month and day in the time's own zone\<close>
  "Date t = absDate (localSeconds t div 86400)"

definition time_Date :: "int \<Rightarrow> int \<Rightarrow> int \<Rightarrow> int \<Rightarrow> int \<Rightarrow> int \<Rightarrow> int \<Rightarrow> int \<Rightarrow> Time" where
  \<comment> \<open>\<open>time.Date(year, month, day, hour, min, sec, nsec, loc)\<close>; values outside their
      usual ranges carry over, which the linear form below does by itself\<close>
  "time_Date year month day hour mins sec nsec loc =
     \<lparr>unixNano =
        (dateToDays year month day * 86400 + hour * 3600 + mins * 60 + sec - loc) * 1000000000
          + nsec,
      offset = loc\<rparr>"

subsection \<open>Decimal digits\<close>

definition isDigit :: "char \<Rightarrow> bool" where
  "isDigit c \<longleftrightarrow> (48::int) \<le> of_char c \<and> of_char c \<le> (57::int)"

definition digitVal :: "char \<Rightarrow> int" where
  "digitVal c = of_char c - 48"

definition digitChar :: "int \<Rightarrow> char" where
  "digitChar n = char_of (48 + n)"

definition digitsVal :: "string \<Rightarrow> int" where
  "digitsVal ds = foldl (\<lambda>a c. 10 * a + digitVal c) 0 ds"

definition getnum :: "string \<Rightarrow> int option" where
  \<comment> \<open>a field that must consist of decimal digits only, and of at least one\<close>
  "getnum ds = (if ds \<noteq> [] \<and> list_all isDigit ds then Some (digitsVal ds) else None)"

function utoa :: "int \<Rightarrow> string" where
  "utoa n = (if n < 10 then [digitChar n] else utoa (n div 10) @ [digitChar (n mod 10)])"
  by pat_completeness auto
termination
  by (relation "measure nat") auto

declare utoa.simps [simp del]

definition appendInt :: "int \<Rightarrow> nat \<Rightarrow> string" where
  \<comment> \<open>\<open>x\<close> in decimal, zero-padded to \<open>width\<close> digits, with a minus sign when negative\<close>
  "appendInt x width =
     (let ds = utoa \<bar>x\<bar>; padded = replicate (width - length ds) (CHR ''0'') @ ds
      in if x < 0 then CHR ''-'' # padded else padded)"

definition itoa :: "int \<Rightarrow> string" where
  \<comment> \<open>\<open>fmt.Sprintf("%d", x)\<close>\<close>
  "itoa x = appendInt x 0"

subsection \<open>strconv.Atoi\<close>

definition Atoi :: "string \<Rightarrow> int option" where
  \<comment> \<open>an optional sign, then decimal digits; the value must fit in 64 bits\<close>
  "Atoi s =
     (let neg = (s \<noteq> [] \<and> hd s = CHR ''-'');
          ds = (if s \<noteq> [] \<and> (hd s = CHR ''+'' \<or> hd s = CHR ''-'') then tl s else s)
      in case getnum ds of
           None \<Rightarrow> None
         | Some n \<Rightarrow>
             let v = (if neg then - n else n)
             in if v < - (2 ^ 63) \<or> 2 ^ 63 - 1 < v then None else Some v)"

subsection \<open>The RFC 3339 text form\<close>

definition truncDiv :: "int \<Rightarrow> int \<Rightarrow> int" where
  \<comment> \<open>Go's integer division, which rounds towards zero\<close>
  "truncDiv a b = sgn a * sgn b * (\<bar>a\<bar> div \<bar>b\<bar>)"

definition formatZone :: "int \<Rightarrow> string" where
  \<comment> \<open>the layout element \<open>Z07:00\<close>: \<open>Z\<close> for UTC, else sign, hours and minutes; seconds of
      the offset are not written\<close>
  "formatZone off =
     (if off = 0 then ''Z''
      else
        let zone = truncDiv off 60;
            sign = (if zone < 0 then CHR ''-'' else CHR ''+'');
            zone = \<bar>zone\<bar>
        in sign # appendInt (zone div 60) 2 @ '':'' @ appendInt (zone mod 60) 2)"

definition FormatDate :: "Time \<Rightarrow> string" where
  \<comment> \<open>\<open>t.Format("2006-01-02")\<close>\<close>
  "FormatDate t =
     (let (year, month, day) = Date t
      in appendInt year 4 @ ''-'' @ appendInt month 2 @ ''-'' @ appendInt day 2)"

definition FormatRFC3339 :: "Time \<Rightarrow> string" where
  \<comment> \<open>\<open>t.Format(time.RFC3339)\<close>, layout \<open>2006-01-02T15:04:05Z07:00\<close>: whole seconds only\<close>
  "FormatRFC3339 t =
     (let secs = localSeconds t mod 86400
      in FormatDate t @ ''T'' @ appendInt (secs div 3600) 2 @ '':''
           @ appendInt (secs mod 3600 div 60) 2 @ '':'' @ appendInt (secs mod 60) 2
           @ formatZone (offset t))"

definition parseFraction :: "string \<Rightarrow> int \<times> string" where
  \<comment> \<open>an optional fraction of a second after the seconds field: a point and digits, of
      which the first nine count; returns the nanoseconds and the rest of the input\<close>
  "parseFraction s =
     (if 2 \<le> length s \<and> hd s = CHR ''.'' \<and> isDigit (s ! 1) then
        let ds = takeWhile isDigit (tl s); d9 = take 9 ds
        in (digitsVal d9 * 10 ^ (9 - length d9), dropWhile isDigit (tl s))
      else (0, s))"

definition parseZone :: "string \<Rightarrow> int option" where
  \<comment> \<open>\<open>Z\<close>, or a sign with two digits of hours, a colon and two digits of minutes\<close>
  "parseZone z =
     (if z = ''Z'' then Some 0
      else if length z = 6 \<and> (hd z = CHR ''+'' \<or> hd z = CHR ''-'') \<and> z ! 3 = CHR '':'' then
        case (getnum (take 2 (drop 1 z)), getnum (drop 4 z)) of
          (Some hh, Some mm) \<Rightarrow>
            if 23 < hh \<or> 59 < mm then None
            else Some ((if hd z = CHR ''-'' then - 1 else 1) * (hh * 3600 + mm * 60))
        | _ \<Rightarrow> None
      else None)"

definition Parse :: "string \<Rightarrow> Time option" where
  \<comment> \<open>\<open>time.Parse(time.RFC3339, s)\<close>; \<open>None\<close> where Go returns an error\<close>
  "Parse s =
     (if length s < 20 \<or> s ! 4 \<noteq> CHR ''-'' \<or> s ! 7 \<noteq> CHR ''-'' \<or> s ! 10 \<noteq> CHR ''T''
          \<or> s ! 13 \<noteq> CHR '':'' \<or> s ! 16 \<noteq> CHR '':'' then None
      else
        case (getnum (take 4 s), getnum (take 2 (drop 5 s)), getnum (take 2 (drop 8 s)),
              getnum (take 2 (drop 11 s)), getnum (take 2 (drop 14 s)),
              getnum (take 2 (drop 17 s))) of
          (Some year, Some month, Some day, Some hour, Some mins, Some sec) \<Rightarrow>
            if month < 1 \<or> 12 < month \<or> 23 < hour \<or> 59 < mins \<or> 59 < sec
               \<or> day < 1 \<or> daysIn month (isLeap year) < day then None
            else
              let (nsec, rest) = parseFraction (drop 19 s)
              in (case parseZone rest of
                    None \<Rightarrow> None
                  | Some off \<Rightarrow>
                      Some (time_Date year month day hour mins sec nsec off))
        | _ \<Rightarrow> None)"

section \<open>The log writer: \<open>logToCSV\<close>\<close>

text \<open>
  The log is a CSV file. Its state is kept at the level at which the program sees it
  through \<open>encoding/csv\<close>: the list of its records, each a list of fields. \<open>NoFile\<close> is
  a path at which nothing exists yet, and \<open>Garbled\<close> stands for a file that has bytes of
  which the CSV reader cannot make a first record.

  Failures of the operating system are inputs of the model: each flag of \<open>faults\<close>
  makes the corresponding call fail.
\<close>

datatype log_file = NoFile | Records "string list list" | Garbled

record faults =
  open_fails :: bool
  stat_fails :: bool
  reopen_fails :: bool
  write_fails :: bool
  sync_fails :: bool

definition no_faults :: faults where
  "no_faults = \<lparr>open_fails = False, stat_fails = False, reopen_fails = False,
                 write_fails = False, sync_fails = False\<rparr>"

datatype error =
    OpenError           \<comment> \<open>failed to open/create CSV file; failed to open CSV file\<close>
  | StatError           \<comment> \<open>failed to stat file\<close>
  | ReadFileError       \<comment> \<open>failed to read CSV file\<close>
  | ReadHeadersError    \<comment> \<open>failed to read CSV headers\<close>
  | WriteHeaderError    \<comment> \<open>failed to write CSV header\<close>
  | WriteRecordError    \<comment> \<open>failed to write CSV record\<close>
  | SyncError           \<comment> \<open>failed to sync file\<close>
  | ReadError           \<comment> \<open>failed to read CSV\<close>

record model =
  logFile :: string
  titles :: "string list"
  startTime :: Time
  elapsed :: Duration
  running :: bool
  quitting :: bool

definition records_of :: "log_file \<Rightarrow> string list list" where
  "records_of file = (case file of Records rs \<Rightarrow> rs | _ \<Rightarrow> [])"

definition sizeIsZero :: "log_file \<Rightarrow> bool" where
  \<comment> \<open>\<open>fileInfo.Size() == 0\<close>, after \<open>O_CREATE\<close> has made a missing file an empty one\<close>
  "sizeIsZero file = (case file of NoFile \<Rightarrow> True | Records rs \<Rightarrow> rs = [] | Garbled \<Rightarrow> False)"

definition readMaxTitles :: "faults \<Rightarrow> model \<Rightarrow> log_file \<Rightarrow> error + int" where
  \<comment> \<open>the number of title columns of the rows to write: the session's own number of
      titles, or that of the existing header where that is greater\<close>
  "readMaxTitles io m file =
     (let maxTitles = int (length (titles m))
      in if \<not> sizeIsZero file then
           if reopen_fails io then Inl ReadFileError
           else
             case file of
               Records (headers # _) \<Rightarrow>
                 let titleCount = int (length headers) - 2
                 in Inr (if titleCount > maxTitles then titleCount else maxTitles)
             | _ \<Rightarrow> Inl ReadHeadersError
         else Inr maxTitles)"

definition headerRow :: "int \<Rightarrow> string list" where
  "headerRow maxTitles =
     [''start_time'', ''end_time''] @ map (\<lambda>i. ''title'' @ itoa i) [1..maxTitles]"

subsection \<open>Splitting a session at local midnight\<close>

definition nextDay :: "Time \<Rightarrow> Time" where
  "nextDay currentStart =
     (let (year, month, day) = Date currentStart
      in time_Date year month (day + 1) 0 0 0 0 (offset currentStart))"

definition endOfDay :: "Time \<Rightarrow> Time" where
  "endOfDay currentStart = Add (nextDay currentStart) (- Nanosecond)"

lemma unixNano_nextDay:
  "unixNano (nextDay t) = ((localSeconds t div 86400 + 1) * 86400 - offset t) * 1000000000"
proof -
  obtain y m d where ymd: "absDate (localSeconds t div 86400) = (y, m, d)"
    by (metis prod_cases3)
  have "dateToDays y m (d + 1) = localSeconds t div 86400 + 1"
    using dateToDays_absDate [OF ymd, of 1] by simp
  then show ?thesis
    by (simp add: nextDay_def Date_def ymd time_Date_def)
qed


lemma nextDay_later: "unixNano t < unixNano (nextDay t)"
proof -
  define s where "s = unixNano t div 1000000000"
  define L where "L = localSeconds t"
  define q where "q = L div 86400"
  have L: "L = s + offset t" by (simp add: L_def s_def localSeconds_def)
  have "L mod 86400 < 86400" by simp
  then have "L < 86400 * q + 86400"
    using mult_div_mod_eq [of 86400 L] unfolding q_def by linarith
  then have "s + 1 \<le> 86400 * q + 86400 - offset t" using L by linarith
  then have "(s + 1) * 1000000000 \<le> (86400 * q + 86400 - offset t) * 1000000000"
    by (simp only: mult_right_mono)
  moreover have "unixNano t < (s + 1) * 1000000000"
  proof -
    have "unixNano t mod 1000000000 < 1000000000" by simp
    then have "unixNano t < 1000000000 * s + 1000000000"
      using mult_div_mod_eq [of 1000000000 "unixNano t"] unfolding s_def by linarith
    then show ?thesis by (simp add: algebra_simps)
  qed
  moreover have "unixNano (nextDay t) = (86400 * q + 86400 - offset t) * 1000000000"
    by (simp add: unixNano_nextDay L_def q_def algebra_simps)
  ultimately show ?thesis by linarith
qed

lemma sint_Nanosecond: "sint Nanosecond = 1" "sint (- Nanosecond) = - 1"
  by (simp_all add: Nanosecond_def)

lemma endOfDay_next: "Add (endOfDay t) Nanosecond = nextDay t"
  by (simp add: endOfDay_def Add_def sint_Nanosecond)

lemma unixNano_endOfDay: "unixNano (endOfDay t) = unixNano (nextDay t) - 1"
  by (simp add: endOfDay_def Add_def sint_Nanosecond)

text \<open>
  The loop of \<open>logToCSV\<close> that cuts the session into one record per day:
  \<^verbatim>\<open>
  currentStart := startTime
  for {
      year, month, day := currentStart.Date()
      nextDay := time.Date(year, month, day+1, 0, 0, 0, 0, currentStart.Location())
      endOfDay := nextDay.Add(-time.Nanosecond)
      currentEnd := endOfDay
      if endOfDay.After(endTime) {
          currentEnd = endTime
      }
      ... write the record of currentStart, currentEnd ...
      if currentEnd.Equal(endTime) {
          break
      }
      currentStart = endOfDay.Add(time.Nanosecond)
  }
  \<close>
  \<open>dailySegments\<close> is this loop, returning the pairs of \<open>currentStart\<close> and \<open>currentEnd\<close> in
  the order in which their records are written. It ends because each round moves
  \<open>currentStart\<close> to a later instant that is still no later than \<open>endTime\<close>.
\<close>

function dailySegments :: "Time \<Rightarrow> Time \<Rightarrow> (Time \<times> Time) list" where
  "dailySegments currentStart endTime =
     (let currentEnd =
            (if After (endOfDay currentStart) endTime then endTime else endOfDay currentStart)
      in (currentStart, currentEnd) #
           (if Equal currentEnd endTime then []
            else dailySegments (Add (endOfDay currentStart) Nanosecond) endTime))"
  by pat_completeness auto
termination
proof (relation "measure (\<lambda>(currentStart, endTime). nat (unixNano endTime - unixNano currentStart))")
  show "wf (measure (\<lambda>(currentStart, endTime). nat (unixNano endTime - unixNano currentStart)))"
    by simp
next
  fix currentStart endTime currentEnd
  assume ce: "currentEnd =
      (if After (endOfDay currentStart) endTime then endTime else endOfDay currentStart)"
    and ne: "\<not> Equal currentEnd endTime"
  have "unixNano (endOfDay currentStart) < unixNano endTime"
    using ce ne by (auto simp: After_def Equal_def split: if_splits)
  then have "unixNano (nextDay currentStart) \<le> unixNano endTime"
    by (simp add: unixNano_endOfDay)
  then show "((Add (endOfDay currentStart) Nanosecond, endTime), (currentStart, endTime))
      \<in> measure (\<lambda>(currentStart, endTime). nat (unixNano endTime - unixNano currentStart))"
    using nextDay_later [of currentStart] by (simp add: endOfDay_next)
qed

declare dailySegments.simps [simp del]

text \<open>
  A write that fails makes \<open>logToCSV\<close> return its error at once. The model has one flag
  for all writes, so a failing write is the first one: that of the header when the file
  is empty, else that of the first record.
\<close>

definition dailyRecord :: "model \<Rightarrow> int \<Rightarrow> Time \<times> Time \<Rightarrow> string list" where
  \<comment> \<open>one row: the two timestamps, the titles, and empty fields up to \<open>2 + maxTitles\<close>\<close>
  "dailyRecord m maxTitles seg =
     (let record = [FormatRFC3339 (fst seg), FormatRFC3339 (snd seg)] @ titles m
      in record @ replicate (nat (2 + maxTitles - int (length record))) '''')"

definition logToCSV :: "faults \<Rightarrow> model \<Rightarrow> log_file \<Rightarrow> error + log_file" where
  "logToCSV io m file =
     (let endTime = Add (startTime m) (elapsed m)
      in if open_fails io then Inl OpenError
         else if stat_fails io then Inl StatError
         else
           case readMaxTitles io m file of
             Inl e \<Rightarrow> Inl e
           | Inr maxTitles \<Rightarrow>
               if write_fails io then
                 Inl (if sizeIsZero file then WriteHeaderError else WriteRecordError)
               else if sync_fails io then Inl SyncError
               else
                 Inr (Records
                   (records_of file
                      @ (if sizeIsZero file then [headerRow maxTitles] else [])
                      @ map (dailyRecord m maxTitles)
                          (dailySegments (startTime m) endTime))))"


subsection \<open>Facts about the split\<close>










lemma dailySegments_hd: "dailySegments cs e \<noteq> [] \<and> fst (hd (dailySegments cs e)) = cs"
  by (simp add: dailySegments.simps [of cs e] Let_def)







section \<open>The summary: \<open>generateSummary\<close>\<close>

text \<open>
  A \<open>map[string]*TaskNode\<close> has no order of its own; the report visits it in the order
  of \<open>sort.Strings\<close> over its keys, which compares strings byte by byte. The map is kept
  here as the list of its entries in that order, each key once, so that two maps with
  the same entries are the same value. \<open>upsert\<close> is the program's idiom of creating the
  entry of a key when it is missing and then updating it in place.
\<close>

datatype TaskNode =
  TaskNode (Name: string) (Duration: Duration) (Children: "(string \<times> TaskNode) list")
    (TotalTime: Duration)

type_synonym tasks = "(string \<times> TaskNode) list"

type_synonym daily = "(string \<times> tasks) list"

fun upsert :: "'k::linorder \<Rightarrow> 'v \<Rightarrow> ('v \<Rightarrow> 'v) \<Rightarrow> ('k \<times> 'v) list \<Rightarrow> ('k \<times> 'v) list" where
  "upsert k new f [] = [(k, f new)]"
| "upsert k new f ((k', v) # m) =
     (if k = k' then (k', f v) # m
      else if k < k' then (k, f new) # (k', v) # m
      else (k', v) # upsert k new f m)"

text \<open>
  The loop over the title fields of one record, which start at index 3:
  \<^verbatim>\<open>
  current := dailyTasks[dateStr]
  for j := 3; j < len(record); j++ {
      if record[j] == "" {
          break // No more titles
      }
      taskName := record[j]
      ...
      if _, exists := current[taskName]; !exists {
          current[taskName] = &TaskNode{Name: taskName, Children: make(map[string]*TaskNode)}
      }
      current[taskName].Duration += duration
      current[taskName].TotalTime += duration
      current = current[taskName].Children
  }
  \<close>
  \<open>buildHierarchy\<close> takes the fields from index 3 on and the map \<open>current\<close>, and returns
  the map as the loop leaves it.
\<close>

fun buildHierarchy :: "Duration \<Rightarrow> string list \<Rightarrow> tasks \<Rightarrow> tasks" where
  "buildHierarchy duration [] current = current"
| "buildHierarchy duration (taskName # rest) current =
     (if taskName = [] then current
      else
        upsert taskName (TaskNode taskName 0 [] 0)
          (\<lambda>node. TaskNode (Name node) (Duration node + duration)
                     (buildHierarchy duration rest (Children node))
                     (TotalTime node + duration))
          current)"

record summary =
  dailyTasks :: daily
  stderr :: "string list"

definition processRecord :: "nat \<Rightarrow> string list \<Rightarrow> summary \<Rightarrow> summary" where
  \<comment> \<open>the body of the loop over the records, for the record at index \<open>i > 0\<close>\<close>
  "processRecord i record st =
     (if length record < 3 then
        st\<lparr>stderr := stderr st @
          [''Skipping malformed record on line '' @ itoa (int i + 1) @ '': too few fields (''
             @ itoa (int (length record)) @ '')'']\<rparr>
      else
        case Parse (record ! 0) of
          None \<Rightarrow>
            st\<lparr>stderr := stderr st @
              [''Skipping record on line '' @ itoa (int i + 1) @ '': invalid start time (''
                 @ record ! 0 @ '')'']\<rparr>
        | Some start \<Rightarrow>
            (case Atoi (record ! 2) of
               None \<Rightarrow>
                 st\<lparr>stderr := stderr st @
                   [''Skipping record on line '' @ itoa (int i + 1) @ '': invalid duration (''
                      @ record ! 2 @ '')'']\<rparr>
             | Some durationSeconds \<Rightarrow>
                 let duration = word_of_int durationSeconds * Second;
                     dateStr = FormatDate start
                 in st\<lparr>dailyTasks :=
                       upsert dateStr [] (buildHierarchy duration (drop 3 record))
                         (dailyTasks st)\<rparr>))"

fun processRecords :: "nat \<Rightarrow> string list list \<Rightarrow> summary \<Rightarrow> summary" where
  \<comment> \<open>the loop \<open>for i, record := range records\<close>, from index \<open>i\<close> on; index 0 is the header\<close>
  "processRecords i [] st = st"
| "processRecords i (record # rest) st =
     processRecords (Suc i) rest (if i = 0 then st else processRecord i record st)"

definition aggregate :: "string list list \<Rightarrow> summary" where
  "aggregate records = processRecords 0 records \<lparr>dailyTasks = [], stderr = []\<rparr>"

subsection \<open>The report\<close>

text \<open>
  The report prints durations as hours with two decimals, computed in floating point.
  The two conversions are parameters of the model: \<open>fmtHours d\<close> stands for
  \<open>Sprintf("%.2f", d.Hours())\<close>, and \<open>fmtTotal ds\<close> for the same format applied to the sum,
  taken in the order of the list, of the hours of \<open>ds\<close>.
\<close>

lemma size_Children:
  "size_list (size_prod (\<lambda>_. 0) size) (Children task) < Suc (Suc (size task + n))"
  by (cases task) simp

function printSubtasks :: "(Duration \<Rightarrow> string) \<Rightarrow> tasks \<Rightarrow> nat \<Rightarrow> string list" where
  "printSubtasks fmtHours [] indent = []"
| "printSubtasks fmtHours ((taskName, task) # rest) indent =
     (replicate indent (CHR '' '') @ taskName @ '': '' @ fmtHours (Duration task) @ '' hs'')
       # printSubtasks fmtHours (Children task) (indent + 2)
       @ printSubtasks fmtHours rest indent"
  by pat_completeness auto
termination
  by (relation "measure (\<lambda>(fmtHours, tasks, indent). size_list (size_prod (\<lambda>_. 0) size) tasks)")
    (auto simp: size_Children)

definition printTask :: "(Duration \<Rightarrow> string) \<Rightarrow> string \<times> TaskNode \<Rightarrow> string list" where
  "printTask fmtHours entry =
     (''  '' @ fst entry @ '': '' @ fmtHours (TotalTime (snd entry)) @ '' hs'')
       # printSubtasks fmtHours (Children (snd entry)) 4"

definition printDay ::
    "(Duration \<Rightarrow> string) \<Rightarrow> (Duration list \<Rightarrow> string) \<Rightarrow> string \<times> tasks \<Rightarrow> string list" where
  "printDay fmtHours fmtTotal entry =
     [''Date: '' @ fst entry,
      ''Total: '' @ fmtTotal (map (\<lambda>task. TotalTime (snd task)) (snd entry)) @ '' hs'']
       @ concat (map (printTask fmtHours) (snd entry))
       @ ['''']"

definition printReport ::
    "(Duration \<Rightarrow> string) \<Rightarrow> (Duration list \<Rightarrow> string) \<Rightarrow> daily \<Rightarrow> string list" where
  "printReport fmtHours fmtTotal days = concat (map (printDay fmtHours fmtTotal) days)"

record console =
  stdout :: "string list"
  errout :: "string list"

definition generateSummary ::
    "faults \<Rightarrow> (Duration \<Rightarrow> string) \<Rightarrow> (Duration list \<Rightarrow> string) \<Rightarrow> log_file
      \<Rightarrow> error + console" where
  "generateSummary io fmtHours fmtTotal file =
     (if open_fails io \<or> file = NoFile then Inl OpenError
      else if file = Garbled then Inl ReadError
      else
        let records = records_of file
        in if length records \<le> 1 then
             Inr \<lparr>stdout = [''No data in CSV file (only header or empty)''], errout = []\<rparr>
           else
             let st = aggregate records
             in Inr \<lparr>stdout = printReport fmtHours fmtTotal (dailyTasks st), errout = stderr st\<rparr>)"

subsection \<open>The lists of entries stay in key order\<close>

text \<open>
  \<open>allTasks P\<close> holds when \<open>P\<close> holds of every node of a map of tasks, at any depth.
\<close>

function allTasks :: "(TaskNode \<Rightarrow> bool) \<Rightarrow> tasks \<Rightarrow> bool" where
  "allTasks P [] = True"
| "allTasks P ((taskName, task) # rest) = (P task \<and> allTasks P (Children task) \<and> allTasks P rest)"
  by pat_completeness auto
termination
  by (relation "measure (\<lambda>(P, tasks). size_list (size_prod (\<lambda>_. 0) size) tasks)")
    (auto simp: size_Children)

lemma allTasks_upsert:
  assumes "allTasks P m"
    and "\<And>v. P v \<Longrightarrow> allTasks P (Children v) \<Longrightarrow> P (f v) \<and> allTasks P (Children (f v))"
    and "P new" "allTasks P (Children new)"
  shows "allTasks P (upsert k new f m)"
  using assms(1)
proof (induction m)
  case Nil
  then show ?case using assms(2) [OF assms(3,4)] by simp
next
  case (Cons a m)
  obtain k' v where a: "a = (k', v)" by (cases a)
  show ?case using Cons assms(2) [OF assms(3,4)] assms(2) [of v] by (auto simp: a)
qed

text \<open>
  Every map that aggregation builds, of days, of root tasks and of the children of any
  node, is strictly ascending in its keys. So visiting the entries in the order of the
  list is visiting the keys after \<open>sort.Strings\<close>, as the report does.
\<close>

definition sortedKeys :: "('k::linorder \<times> 'v) list \<Rightarrow> bool" where
  "sortedKeys m = sorted_wrt (<) (map fst m)"

lemma keys_upsert: "set (map fst (upsert k new f m)) = insert k (set (map fst m))"
proof (induction m)
  case Nil
  show ?case by simp
next
  case (Cons a m)
  obtain k' v where a: "a = (k', v)" by (cases a)
  have "set (map fst (upsert k new f ((k', v) # m)))
      = (if k = k' then insert k' (set (map fst m))
         else if k < k' then insert k (insert k' (set (map fst m)))
         else insert k' (set (map fst (upsert k new f m))))"
    by (simp del: set_map)
  also have "\<dots> = insert k (set (map fst ((k', v) # m)))"
    unfolding Cons.IH by (auto simp del: set_map)
  finally show ?case unfolding a .
qed

lemma sortedKeys_upsert: "sortedKeys m \<Longrightarrow> sortedKeys (upsert k new f m)"
proof (induction m)
  case Nil
  then show ?case by (simp add: sortedKeys_def)
next
  case (Cons a m)
  obtain k' v where a: "a = (k', v)" by (cases a)
  have tl: "sortedKeys m" and lt: "\<forall>x \<in> set (map fst m). k' < x"
    using Cons.prems by (auto simp: sortedKeys_def a)
  have "\<forall>x \<in> set (map fst (upsert k new f m)). k' < x" if "k' < k"
    using that lt unfolding keys_upsert by simp
  then show ?case
    using Cons.IH [OF tl] Cons.prems by (auto simp: sortedKeys_def a)
qed

lemma sortedKeys_sort: "sortedKeys m \<Longrightarrow> sort (map fst m) = map fst m"
  unfolding sortedKeys_def by (simp add: sorted_sort_id strict_sorted_imp_sorted)

definition sortedTasks :: "tasks \<Rightarrow> bool" where
  "sortedTasks ts \<longleftrightarrow> sortedKeys ts \<and> allTasks (\<lambda>task. sortedKeys (Children task)) ts"

lemma sortedTasks_buildHierarchy:
  "sortedTasks current \<Longrightarrow> sortedTasks (buildHierarchy duration ts current)"
proof (induction ts arbitrary: current)
  case Nil
  then show ?case by simp
next
  case (Cons t ts)
  show ?case
  proof (cases "t = []")
    case True
    then show ?thesis using Cons.prems by simp
  next
    case False
    let ?f = "\<lambda>node. TaskNode (Name node) (Duration node + duration)
                     (buildHierarchy duration ts (Children node))
                     (TotalTime node + duration)"
    let ?Q = "\<lambda>task. sortedKeys (Children task)"
    have "allTasks ?Q (upsert t (TaskNode t 0 [] 0) ?f current)"
    proof (rule allTasks_upsert)
      show "allTasks ?Q current" using Cons.prems by (simp add: sortedTasks_def)
    next
      fix v
      assume "?Q v" "allTasks ?Q (Children v)"
      then have "sortedTasks (Children v)" by (simp add: sortedTasks_def)
      then have "sortedTasks (buildHierarchy duration ts (Children v))" by (rule Cons.IH)
      then show "?Q (?f v) \<and> allTasks ?Q (Children (?f v))" by (simp add: sortedTasks_def)
    next
      show "?Q (TaskNode t 0 [] 0)" by (simp add: sortedKeys_def)
      show "allTasks ?Q (Children (TaskNode t 0 [] 0))" by simp
    qed
    moreover have "sortedKeys (upsert t (TaskNode t 0 [] 0) ?f current)"
      using Cons.prems by (simp add: sortedTasks_def sortedKeys_upsert)
    ultimately show ?thesis using False by (simp add: sortedTasks_def)
  qed
qed

lemma list_all_upsert:
  "list_all (\<lambda>e. R (snd e)) m \<Longrightarrow> (\<And>v. R v \<Longrightarrow> R (f v)) \<Longrightarrow> R new \<Longrightarrow>
     list_all (\<lambda>e. R (snd e)) (upsert k new f m)"
  by (induction m) auto

lemma sorted_processRecord:
  assumes "sortedKeys (dailyTasks st)" "list_all (\<lambda>day. sortedTasks (snd day)) (dailyTasks st)"
  shows "sortedKeys (dailyTasks (processRecord i record st))
    \<and> list_all (\<lambda>day. sortedTasks (snd day)) (dailyTasks (processRecord i record st))"
proof -
  have "list_all (\<lambda>day. sortedTasks (snd day)) (upsert date [] (buildHierarchy d ts) (dailyTasks st))"
    for date d ts
  proof (rule list_all_upsert [OF assms(2)])
    show "sortedTasks []" by (simp add: sortedTasks_def sortedKeys_def)
  qed (rule sortedTasks_buildHierarchy)
  then show ?thesis using assms
    by (simp add: processRecord_def Let_def sortedKeys_upsert split: option.splits)
qed

lemma sorted_processRecords:
  "sortedKeys (dailyTasks st) \<Longrightarrow> list_all (\<lambda>day. sortedTasks (snd day)) (dailyTasks st) \<Longrightarrow>
   sortedKeys (dailyTasks (processRecords i records st))
    \<and> list_all (\<lambda>day. sortedTasks (snd day)) (dailyTasks (processRecords i records st))"
  by (induction records arbitrary: i st) (simp_all add: sorted_processRecord)

lemma aggregate_sorted:
  "sortedKeys (dailyTasks (aggregate records))
    \<and> list_all (\<lambda>day. sortedTasks (snd day)) (dailyTasks (aggregate records))"
  unfolding aggregate_def by (rule sorted_processRecords) (simp_all add: sortedKeys_def)

section \<open>Properties of the day split\<close>






section \<open>Properties of the summary\<close>

subsection \<open>Which records are skipped\<close>







subsection \<open>The first empty title ends the chain\<close>

definition chainOnly :: "string list \<Rightarrow> string list" where
  \<comment> \<open>a record with its title fields cut at the first empty one\<close>
  "chainOnly record = take 3 record @ takeWhile (\<lambda>t. t \<noteq> []) (drop 3 record)"

lemma buildHierarchy_takeWhile:
  "buildHierarchy duration (takeWhile (\<lambda>t. t \<noteq> []) ts) current = buildHierarchy duration ts current"
  by (induction ts arbitrary: current) simp_all

lemma buildHierarchy_takeWhile_fun:
  "buildHierarchy duration (takeWhile (\<lambda>t. t \<noteq> []) ts) = buildHierarchy duration ts"
  by (rule ext) (rule buildHierarchy_takeWhile)

lemma processRecord_chainOnly: "processRecord i (chainOnly record) st = processRecord i record st"
proof (cases "length record < 3")
  case True
  then show ?thesis by (simp add: chainOnly_def)
next
  case False
  then have "length (chainOnly record) \<ge> 3" "chainOnly record ! 0 = record ! 0"
    "chainOnly record ! 2 = record ! 2"
    "drop 3 (chainOnly record) = takeWhile (\<lambda>t. t \<noteq> []) (drop 3 record)"
    by (simp_all add: chainOnly_def nth_append)
  then show ?thesis using False
    by (simp add: processRecord_def buildHierarchy_takeWhile_fun Let_def split: option.splits)
qed

lemma processRecords_chainOnly:
  "processRecords i (map chainOnly records) st = processRecords i records st"
  by (induction records arbitrary: i st) (simp_all add: processRecord_chainOnly)

text \<open>
  Claim C9. The loop over the title fields of a record stops at the first empty one:
  fields after it add no level, whether empty or not. So a chain followed by an empty
  field and anything else builds what the chain up to its own first empty field builds,
  and a record, or a whole log, gives the same result as with every record cut at its
  first empty title.
\<close>

theorem empty_title_ends_chain:
  "buildHierarchy duration (chain @ [] # later) current
     = buildHierarchy duration (takeWhile (\<lambda>t. t \<noteq> []) chain) current
   \<and> processRecord i (chainOnly record) st = processRecord i record st
   \<and> aggregate (map chainOnly records) = aggregate records"
proof -
  have "takeWhile (\<lambda>t. t \<noteq> []) (chain @ [] # later) = takeWhile (\<lambda>t. t \<noteq> []) chain"
    by (induction chain) simp_all
  then have "buildHierarchy duration (chain @ [] # later) current
     = buildHierarchy duration (takeWhile (\<lambda>t. t \<noteq> []) chain) current"
    by (metis buildHierarchy_takeWhile)
  then show ?thesis
    by (simp add: processRecord_chainOnly processRecords_chainOnly aggregate_def)
qed

subsection \<open>The two duration fields of a node\<close>

definition bothDurationsEqual :: "TaskNode \<Rightarrow> bool" where
  "bothDurationsEqual task \<longleftrightarrow> Duration task = TotalTime task"

lemma allTasks_buildHierarchy:
  "allTasks bothDurationsEqual current \<Longrightarrow>
     allTasks bothDurationsEqual (buildHierarchy duration ts current)"
proof (induction ts arbitrary: current)
  case Nil
  then show ?case by simp
next
  case (Cons t ts)
  show ?case
  proof (cases "t = []")
    case True
    then show ?thesis using Cons.prems by simp
  next
    case False
    let ?f = "\<lambda>node. TaskNode (Name node) (Duration node + duration)
                     (buildHierarchy duration ts (Children node))
                     (TotalTime node + duration)"
    have "allTasks bothDurationsEqual (upsert t (TaskNode t 0 [] 0) ?f current)"
    proof (rule allTasks_upsert [OF Cons.prems])
      fix v
      assume v: "bothDurationsEqual v" "allTasks bothDurationsEqual (Children v)"
      from v(1) have "Duration v = TotalTime v" by (simp add: bothDurationsEqual_def)
      then have "bothDurationsEqual (?f v)" by (simp add: bothDurationsEqual_def)
      moreover have "allTasks bothDurationsEqual (Children (?f v))"
        using Cons.IH [OF v(2)] by simp
      ultimately show "bothDurationsEqual (?f v) \<and> allTasks bothDurationsEqual (Children (?f v))"
        by (rule conjI)
    next
      show "bothDurationsEqual (TaskNode t 0 [] 0)" by (simp add: bothDurationsEqual_def)
      show "allTasks bothDurationsEqual (Children (TaskNode t 0 [] 0))" by simp
    qed
    then show ?thesis using False by simp
  qed
qed

definition allDays :: "(TaskNode \<Rightarrow> bool) \<Rightarrow> daily \<Rightarrow> bool" where
  "allDays P days = list_all (\<lambda>day. allTasks P (snd day)) days"

lemma allDays_upsert:
  "allDays P days \<Longrightarrow> (\<And>ts. allTasks P ts \<Longrightarrow> allTasks P (f ts)) \<Longrightarrow>
     allDays P (upsert k [] f days)"
  by (induction days) (auto simp: allDays_def)

lemma allDays_processRecord:
  "allDays bothDurationsEqual (dailyTasks st) \<Longrightarrow>
     allDays bothDurationsEqual (dailyTasks (processRecord i record st))"
  by (auto simp: processRecord_def Let_def allDays_upsert allTasks_buildHierarchy
      split: option.splits)

lemma allDays_processRecords:
  "allDays bothDurationsEqual (dailyTasks st) \<Longrightarrow>
     allDays bothDurationsEqual (dailyTasks (processRecords i records st))"
  by (induction records arbitrary: i st) (simp_all add: allDays_processRecord)

text \<open>
  Claim C10. In every node of every day's tree that aggregation builds, the field
  \<open>Duration\<close> equals the field \<open>TotalTime\<close>: the loop adds the session's duration to both
  at every node of the chain.
\<close>

theorem durations_always_equal:
  "allDays bothDurationsEqual (dailyTasks (aggregate records))"
  unfolding aggregate_def by (rule allDays_processRecords) (simp add: allDays_def)

theorem durations_always_equal_witness:
  "dailyTasks (aggregate
     [[''start_time'', ''end_time'', ''duration_seconds'', ''title1'', ''title2''],
      [''2024-01-01T10:00:00Z'', ''2024-01-01T11:00:00Z'', ''3600'', ''A'', ''B''],
      [''2024-01-02T12:00:00Z'', ''2024-01-02T14:00:00Z'', ''7200'', ''A'']])
     = [(''2024-01-01'',
         [(''A'', TaskNode ''A'' 3600000000000
                    [(''B'', TaskNode ''B'' 3600000000000 [] 3600000000000)] 3600000000000)]),
        (''2024-01-02'', [(''A'', TaskNode ''A'' 7200000000000 [] 7200000000000)])]
   \<and> allDays bothDurationsEqual (dailyTasks (aggregate
     [[''start_time'', ''end_time'', ''duration_seconds'', ''title1'', ''title2''],
      [''2024-01-01T10:00:00Z'', ''2024-01-01T11:00:00Z'', ''3600'', ''A'', ''B''],
      [''2024-01-02T12:00:00Z'', ''2024-01-02T14:00:00Z'', ''7200'', ''A'']]))"
proof (rule conjI)
  show "dailyTasks (aggregate
     [[''start_time'', ''end_time'', ''duration_seconds'', ''title1'', ''title2''],
      [''2024-01-01T10:00:00Z'', ''2024-01-01T11:00:00Z'', ''3600'', ''A'', ''B''],
      [''2024-01-02T12:00:00Z'', ''2024-01-02T14:00:00Z'', ''7200'', ''A'']])
     = [(''2024-01-01'',
         [(''A'', TaskNode ''A'' 3600000000000
                    [(''B'', TaskNode ''B'' 3600000000000 [] 3600000000000)] 3600000000000)]),
        (''2024-01-02'', [(''A'', TaskNode ''A'' 7200000000000 [] 7200000000000)])]"
    by code_simp
qed (rule durations_always_equal)

subsection \<open>Own time and total time\<close>

text \<open>
  Claim C1 expects, for one day with a session \<open>A, B\<close> of one hour and a session \<open>A, C\<close>
  of two hours, node \<open>A\<close> to have a total of three hours and an own duration of zero.
  On that input the program gives \<open>A\<close> a \<open>TotalTime\<close> of three hours and a \<open>Duration\<close>
  of three hours as well: it adds each session to \<open>Duration\<close> at every node of the
  chain, not only at the deepest.
\<close>

theorem additivity_example_own_duration:
  "dailyTasks (aggregate
     [[''start_time'', ''end_time'', ''duration_seconds'', ''title1'', ''title2''],
      [''2024-01-01T10:00:00Z'', ''2024-01-01T11:00:00Z'', ''3600'', ''A'', ''B''],
      [''2024-01-01T12:00:00Z'', ''2024-01-01T14:00:00Z'', ''7200'', ''A'', ''C'']])
   = [(''2024-01-01'',
       [(''A'', TaskNode ''A'' 10800000000000
                  [(''B'', TaskNode ''B'' 3600000000000 [] 3600000000000),
                   (''C'', TaskNode ''C'' 7200000000000 [] 7200000000000)]
                  10800000000000)])]"
  by code_simp

subsection \<open>The duration of a session\<close>

definition spec_duration :: "string list \<Rightarrow> int option" where
  \<comment> \<open>the duration the specification attributes to a row: end minus start, in nanoseconds\<close>
  "spec_duration record =
     (case (Parse (record ! 0), Parse (record ! 1)) of
        (Some s, Some e) \<Rightarrow> Some (unixNano e - unixNano s)
      | _ \<Rightarrow> None)"

definition session_5_A :: model where
  "session_5_A =
     \<lparr>logFile = ''./talogo.csv'', titles = [''5'', ''A''],
      startTime = \<lparr>unixNano = 1704103200000000000, offset = 0\<rparr>,
      elapsed = 3600000000000, running = False, quitting = True\<rparr>"

text \<open>
  Claim C2 says that the duration attributed to a session's nodes is its end minus its
  start. The summary takes the duration from the third field of the row, read as a
  number of seconds, and takes the titles from the fourth field on; the rows that
  \<open>logToCSV\<close> writes hold the first title in the third field. For a session of one hour
  with the titles \<open>5\<close> and \<open>A\<close> the written row ends one hour after it starts, and the
  summary attributes five seconds to a root task \<open>A\<close>.
\<close>

theorem duration_read_from_third_field:
  "logToCSV no_faults session_5_A NoFile
     = Inr (Records [[''start_time'', ''end_time'', ''title1'', ''title2''],
                     [''2024-01-01T10:00:00Z'', ''2024-01-01T11:00:00Z'', ''5'', ''A'']])
   \<and> aggregate [[''start_time'', ''end_time'', ''title1'', ''title2''],
                 [''2024-01-01T10:00:00Z'', ''2024-01-01T11:00:00Z'', ''5'', ''A'']]
     = \<lparr>dailyTasks = [(''2024-01-01'', [(''A'', TaskNode ''A'' 5000000000 [] 5000000000)])],
        stderr = []\<rparr>
   \<and> spec_duration [''2024-01-01T10:00:00Z'', ''2024-01-01T11:00:00Z'', ''5'', ''A'']
     = Some 3600000000000"
  unfolding session_5_A_def no_faults_def spec_duration_def by code_simp

subsection \<open>The order of the rows does not matter\<close>

lemma upsert_commute:
  "k1 \<noteq> k2 \<Longrightarrow>
     upsert k1 n1 f1 (upsert k2 n2 f2 m) = upsert k2 n2 f2 (upsert k1 n1 f1 m)"
  by (induction m) auto

lemma upsert_twice: "upsert k n f (upsert k n g m) = upsert k n (f \<circ> g) m"
  by (induction m) auto

lemma buildHierarchy_commute:
  "buildHierarchy d1 ts1 (buildHierarchy d2 ts2 current)
     = buildHierarchy d2 ts2 (buildHierarchy d1 ts1 current)"
proof (induction ts1 arbitrary: ts2 current)
  case Nil
  then show ?case by simp
next
  case (Cons t1 r1)
  show ?case
  proof (cases ts2)
    case Nil
    then show ?thesis by simp
  next
    case (Cons t2 r2)
    let ?f1 = "\<lambda>node. TaskNode (Name node) (Duration node + d1)
                     (buildHierarchy d1 r1 (Children node)) (TotalTime node + d1)"
    let ?f2 = "\<lambda>node. TaskNode (Name node) (Duration node + d2)
                     (buildHierarchy d2 r2 (Children node)) (TotalTime node + d2)"
    show ?thesis
    proof (cases "t1 = [] \<or> t2 = []")
      case True
      then show ?thesis using Cons by auto
    next
      case False
      show ?thesis
      proof (cases "t1 = t2")
        case True
        have "?f1 \<circ> ?f2 = ?f2 \<circ> ?f1"
          by (rule ext) (simp add: Cons.IH [of r2] add.commute add.left_commute)
        then show ?thesis using True False Cons by (simp add: upsert_twice)
      next
        case neq: False
        then show ?thesis using False Cons by (simp add: upsert_commute)
      qed
    qed
  qed
qed

definition forestStep :: "string list \<Rightarrow> daily \<Rightarrow> daily" where
  \<comment> \<open>what processing one record does to the days' trees\<close>
  "forestStep record days = dailyTasks (processRecord 0 record \<lparr>dailyTasks = days, stderr = []\<rparr>)"

lemma dailyTasks_processRecord:
  "dailyTasks (processRecord i record st) = forestStep record (dailyTasks st)"
  by (simp add: forestStep_def processRecord_def Let_def split: option.splits)

lemma forestStep_cases:
  "forestStep record = id
   \<or> (\<exists>date d. forestStep record = upsert date [] (buildHierarchy d (drop 3 record)))"
proof (cases "length record < 3 \<or> Parse (record ! 0) = None \<or> Atoi (record ! 2) = None")
  case True
  then have "forestStep record = id"
    by (auto simp: forestStep_def processRecord_def fun_eq_iff split: option.splits)
  then show ?thesis ..
next
  case False
  then obtain start secs where "Parse (record ! 0) = Some start" "Atoi (record ! 2) = Some secs"
    by auto
  then have "forestStep record
      = upsert (FormatDate start) [] (buildHierarchy (word_of_int secs * Second) (drop 3 record))"
    using False by (auto simp: forestStep_def processRecord_def Let_def fun_eq_iff)
  then show ?thesis by blast
qed

lemma upsert_buildHierarchy_commute:
  "upsert date1 [] (buildHierarchy d1 ts1) (upsert date2 [] (buildHierarchy d2 ts2) days)
     = upsert date2 [] (buildHierarchy d2 ts2) (upsert date1 [] (buildHierarchy d1 ts1) days)"
proof (cases "date1 = date2")
  case True
  have "buildHierarchy d1 ts1 \<circ> buildHierarchy d2 ts2
      = buildHierarchy d2 ts2 \<circ> buildHierarchy d1 ts1"
    by (rule ext) (simp add: buildHierarchy_commute)
  then show ?thesis using True by (simp add: upsert_twice)
next
  case False
  then show ?thesis by (rule upsert_commute)
qed

lemma forestStep_commute: "forestStep r1 \<circ> forestStep r2 = forestStep r2 \<circ> forestStep r1"
  using forestStep_cases [of r1] forestStep_cases [of r2]
  by (auto simp: fun_eq_iff upsert_buildHierarchy_commute)

lemma dailyTasks_processRecords:
  "dailyTasks (processRecords (Suc i) rows st) = fold forestStep rows (dailyTasks st)"
  by (induction rows arbitrary: i st) (simp_all add: dailyTasks_processRecord)

lemma dailyTasks_aggregate:
  "dailyTasks (aggregate (header # rows)) = fold forestStep rows []"
  by (simp add: aggregate_def dailyTasks_processRecords)

text \<open>
  Claim C8. Two logs with the same header and the same data rows in any two orders
  give the same trees for every day, and \<open>generateSummary\<close> prints the same report on
  standard output for both (or fails in the same way for both).
\<close>

theorem report_determinism:
  assumes "mset rows = mset rows'"
  shows "dailyTasks (aggregate (header # rows)) = dailyTasks (aggregate (header # rows'))
    \<and> map_sum id stdout (generateSummary io fmtHours fmtTotal (Records (header # rows)))
      = map_sum id stdout (generateSummary io fmtHours fmtTotal (Records (header # rows')))"
proof -
  have "fold forestStep rows = fold forestStep rows'"
    using assms by (intro fold_multiset_equiv forestStep_commute)
  then have eq: "dailyTasks (aggregate (header # rows)) = dailyTasks (aggregate (header # rows'))"
    by (simp add: dailyTasks_aggregate)
  have "length rows = length rows'" using assms by (metis size_mset)
  then show ?thesis using eq by (simp add: generateSummary_def records_of_def Let_def)
qed

theorem report_determinism_witness:
  "mset [[''2024-01-01T10:00:00Z'', ''2024-01-01T11:00:00Z'', ''3600'', ''A'', ''B''],
         [''2024-01-01T12:00:00Z'', ''2024-01-01T14:00:00Z'', ''7200'', ''A'', ''C'']]
     = mset [[''2024-01-01T12:00:00Z'', ''2024-01-01T14:00:00Z'', ''7200'', ''A'', ''C''],
             [''2024-01-01T10:00:00Z'', ''2024-01-01T11:00:00Z'', ''3600'', ''A'', ''B'']]
   \<and> dailyTasks (aggregate
        [[''start_time'', ''end_time'', ''duration_seconds'', ''title1'', ''title2''],
         [''2024-01-01T10:00:00Z'', ''2024-01-01T11:00:00Z'', ''3600'', ''A'', ''B''],
         [''2024-01-01T12:00:00Z'', ''2024-01-01T14:00:00Z'', ''7200'', ''A'', ''C'']])
     = dailyTasks (aggregate
        [[''start_time'', ''end_time'', ''duration_seconds'', ''title1'', ''title2''],
         [''2024-01-01T12:00:00Z'', ''2024-01-01T14:00:00Z'', ''7200'', ''A'', ''C''],
         [''2024-01-01T10:00:00Z'', ''2024-01-01T11:00:00Z'', ''3600'', ''A'', ''B'']])"
proof -
  let ?r1 = "[''2024-01-01T10:00:00Z'', ''2024-01-01T11:00:00Z'', ''3600'', ''A'', ''B'']"
  let ?r2 = "[''2024-01-01T12:00:00Z'', ''2024-01-01T14:00:00Z'', ''7200'', ''A'', ''C'']"
  have h: "mset [?r1, ?r2] = mset [?r2, ?r1]" by (simp add: add_mset_commute)
  show ?thesis using h report_determinism [OF h, THEN conjunct1] by (rule conjI)
qed

section \<open>The width of the rows that \<open>logToCSV\<close> appends\<close>

definition rows_match_header :: "string list list \<Rightarrow> bool" where
  \<comment> \<open>the invariant of the specification: every data row has as many fields as the header\<close>
  "rows_match_header rs =
     (case rs of [] \<Rightarrow> True | header # rows \<Rightarrow> list_all (\<lambda>row. length row = length header) rows)"

definition titleColumns :: "model \<Rightarrow> log_file \<Rightarrow> int" where
  \<comment> \<open>the number of title columns that the header declares; for a log that is still
      empty, the number that \<open>logToCSV\<close> is about to declare\<close>
  "titleColumns m file =
     (if sizeIsZero file then int (length (titles m))
      else int (length (hd (records_of file))) - 2)"

definition session_A_B :: model where
  "session_A_B =
     \<lparr>logFile = ''./talogo.csv'', titles = [''A'', ''B''],
      startTime = \<lparr>unixNano = 1704103200000000000, offset = 0\<rparr>,
      elapsed = 3600000000000, running = False, quitting = True\<rparr>"

text \<open>
  Claim C7 says that after every append every data row has as many fields as the
  header, and that a session with more titles than the header declares is never
  written wider than the header. \<open>logToCSV\<close> takes the greater of the two counts as
  the width of the new rows and never rewrites the header: appending a session with
  two titles to a log whose header declares one title column writes a row of four
  fields under a header of three.
\<close>

theorem row_width_counterexample:
  "rows_match_header [[''start_time'', ''end_time'', ''title1'']]
   \<and> logToCSV no_faults session_A_B (Records [[''start_time'', ''end_time'', ''title1'']])
     = Inr (Records [[''start_time'', ''end_time'', ''title1''],
                     [''2024-01-01T10:00:00Z'', ''2024-01-01T11:00:00Z'', ''A'', ''B'']])
   \<and> \<not> rows_match_header [[''start_time'', ''end_time'', ''title1''],
                     [''2024-01-01T10:00:00Z'', ''2024-01-01T11:00:00Z'', ''A'', ''B'']]"
  unfolding session_A_B_def no_faults_def rows_match_header_def by code_simp

lemma dailyRecord_shape:
  assumes "int (length (titles m)) \<le> w"
  shows "int (length (dailyRecord m w seg)) = 2 + w
    \<and> take (length (titles m)) (drop 2 (dailyRecord m w seg)) = titles m
    \<and> set (drop (2 + length (titles m)) (dailyRecord m w seg)) \<subseteq> {[]}"
  using assms by (auto simp: dailyRecord_def Let_def)

text \<open>
  Claim C7, amended. A successful append leaves the records already in the file as
  they were and adds, to an empty file, a header of \<open>2 + n\<close> fields for the \<open>n\<close>
  titles of the session, and then at least one row. Every new row has exactly
  \<open>2 + max N n\<close> fields, where \<open>N\<close> is the number of title columns of the header: the
  session's titles in full, followed by empty fields. So under a header that declares
  at least as many columns as the session needs the new rows are padded to the
  header's width, and under a narrower header they are wider than the header.
\<close>

theorem append_row_width:
  assumes "logToCSV io m file = Inr file'"
  shows "\<exists>rows. rows \<noteq> []
    \<and> file' = Records (records_of file
                 @ (if sizeIsZero file then [headerRow (int (length (titles m)))] else [])
                 @ rows)
    \<and> length (headerRow (int (length (titles m)))) = 2 + length (titles m)
    \<and> (\<forall>row \<in> set rows.
          int (length row) = 2 + max (titleColumns m file) (int (length (titles m)))
          \<and> take (length (titles m)) (drop 2 row) = titles m
          \<and> set (drop (2 + length (titles m)) row) \<subseteq> {[]})"
proof -
  from assms obtain w where w: "readMaxTitles io m file = Inr w"
    and f: "file' = Records (records_of file
                 @ (if sizeIsZero file then [headerRow w] else [])
                 @ map (dailyRecord m w) (dailySegments (startTime m) (Add (startTime m) (elapsed m))))"
    by (auto simp: logToCSV_def Let_def split: if_splits sum.splits)
  have wmax: "w = max (titleColumns m file) (int (length (titles m)))"
    and wz: "sizeIsZero file \<Longrightarrow> w = int (length (titles m))"
    using w
    by (auto simp: readMaxTitles_def titleColumns_def records_of_def Let_def
        split: if_splits log_file.splits list.splits)
  have le: "int (length (titles m)) \<le> w" using wmax by simp
  let ?rows = "map (dailyRecord m w) (dailySegments (startTime m) (Add (startTime m) (elapsed m)))"
  have "?rows \<noteq> []" using dailySegments_hd by simp
  moreover have "file' = Records (records_of file
                 @ (if sizeIsZero file then [headerRow (int (length (titles m)))] else [])
                 @ ?rows)"
    using f wz by auto
  moreover have "length (headerRow (int (length (titles m)))) = 2 + length (titles m)"
    by (simp add: headerRow_def)
  moreover have "\<forall>row \<in> set ?rows.
          int (length row) = 2 + max (titleColumns m file) (int (length (titles m)))
          \<and> take (length (titles m)) (drop 2 row) = titles m
          \<and> set (drop (2 + length (titles m)) row) \<subseteq> {[]}"
    using dailyRecord_shape [OF le] wmax by auto
  ultimately show ?thesis by blast
qed

theorem append_row_width_witness:
  "logToCSV no_faults session_A_B
       (Records [[''start_time'', ''end_time'', ''title1'', ''title2'', ''title3'']])
     = Inr (Records [[''start_time'', ''end_time'', ''title1'', ''title2'', ''title3''],
                     [''2024-01-01T10:00:00Z'', ''2024-01-01T11:00:00Z'', ''A'', ''B'', []]])
   \<and> (\<exists>rows. rows \<noteq> []
        \<and> Records [[''start_time'', ''end_time'', ''title1'', ''title2'', ''title3''],
                   [''2024-01-01T10:00:00Z'', ''2024-01-01T11:00:00Z'', ''A'', ''B'', []]]
          = Records (records_of
                (Records [[''start_time'', ''end_time'', ''title1'', ''title2'', ''title3'']])
               @ (if sizeIsZero
                       (Records [[''start_time'', ''end_time'', ''title1'', ''title2'', ''title3'']])
                  then [headerRow (int (length (titles session_A_B)))] else [])
               @ rows)
        \<and> length (headerRow (int (length (titles session_A_B))))
            = 2 + length (titles session_A_B)
        \<and> (\<forall>row \<in> set rows.
              int (length row)
                = 2 + max (titleColumns session_A_B
                       (Records [[''start_time'', ''end_time'', ''title1'', ''title2'', ''title3'']]))
                      (int (length (titles session_A_B)))
              \<and> take (length (titles session_A_B)) (drop 2 row) = titles session_A_B
              \<and> set (drop (2 + length (titles session_A_B)) row) \<subseteq> {[]}))"
proof -
  have h: "logToCSV no_faults session_A_B
       (Records [[''start_time'', ''end_time'', ''title1'', ''title2'', ''title3'']])
     = Inr (Records [[''start_time'', ''end_time'', ''title1'', ''title2'', ''title3''],
                     [''2024-01-01T10:00:00Z'', ''2024-01-01T11:00:00Z'', ''A'', ''B'', []]])"
    unfolding session_A_B_def no_faults_def by code_simp
  show ?thesis using h append_row_width [OF h] by (rule conjI)
qed

section \<open>Timestamps through the log's text form\<close>

text \<open>
  Claim C6 says that a timestamp written to the log and read back is exactly the same
  instant. The layout \<open>time.RFC3339\<close> has no fraction of a second, and an instant has
  nanoseconds. The last instant of a day, which \<open>logToCSV\<close> itself writes as the end of
  every segment that stops at midnight, comes back 999999999 nanoseconds earlier.
\<close>

theorem timestamp_round_trip_counterexample:
  "unixNano (endOfDay \<lparr>unixNano = 1704103200000000000, offset = 0\<rparr>) = 1704153599999999999
   \<and> FormatRFC3339 (endOfDay \<lparr>unixNano = 1704103200000000000, offset = 0\<rparr>)
       = ''2024-01-01T23:59:59Z''
   \<and> Parse ''2024-01-01T23:59:59Z'' = Some \<lparr>unixNano = 1704153599000000000, offset = 0\<rparr>
   \<and> Parse (FormatRFC3339 (endOfDay \<lparr>unixNano = 1704103200000000000, offset = 0\<rparr>))
       \<noteq> Some (endOfDay \<lparr>unixNano = 1704103200000000000, offset = 0\<rparr>)"
  by code_simp

subsection \<open>Formatting and parsing numbers of fixed width\<close>

lemma digitChar_props:
  assumes "0 \<le> n" "n < 10"
  shows "isDigit (digitChar n)" "digitVal (digitChar n) = n"
  using assms by (simp_all add: isDigit_def digitVal_def digitChar_def)

lemma zero_char: "CHR ''0'' = digitChar 0"
  unfolding digitChar_def by code_simp

lemma div_10_10: "(n::int) div 10 div 10 = n div 100"
  using zdiv_zmult2_eq [of 10 n 10] by simp

lemma div_10_100: "(n::int) div 10 div 100 = n div 1000"
  using zdiv_zmult2_eq [of 100 n 10] by simp

lemma div_100_10: "(n::int) div 100 div 10 = n div 1000"
  using zdiv_zmult2_eq [of 10 n 100] by simp

lemma utoa_1: "0 \<le> n \<Longrightarrow> n < 10 \<Longrightarrow> utoa n = [digitChar n]"
  by (simp add: utoa.simps [of n])

lemma utoa_2: "10 \<le> n \<Longrightarrow> n < 100 \<Longrightarrow> utoa n = [digitChar (n div 10), digitChar (n mod 10)]"
  by (simp add: utoa.simps [of n] utoa_1)

lemma utoa_3:
  "100 \<le> n \<Longrightarrow> n < 1000 \<Longrightarrow>
     utoa n = [digitChar (n div 100), digitChar (n div 10 mod 10), digitChar (n mod 10)]"
  using utoa_2 [of "n div 10"] by (simp add: utoa.simps [of n] div_10_10)

lemma utoa_4:
  "1000 \<le> n \<Longrightarrow> n < 10000 \<Longrightarrow>
     utoa n = [digitChar (n div 1000), digitChar (n div 100 mod 10),
               digitChar (n div 10 mod 10), digitChar (n mod 10)]"
  using utoa_3 [of "n div 10"] by (simp add: utoa.simps [of n] div_10_10 div_10_100)

lemma appendInt_2:
  assumes "0 \<le> x" "x < 100"
  shows "appendInt x 2 = [digitChar (x div 10), digitChar (x mod 10)]"
proof (cases "x < 10")
  case True
  then show ?thesis using assms by (simp add: appendInt_def utoa_1 zero_char)
next
  case False
  then show ?thesis using assms by (simp add: appendInt_def utoa_2)
qed

lemma appendInt_4:
  assumes "0 \<le> x" "x < 10000"
  shows "appendInt x 4 = [digitChar (x div 1000), digitChar (x div 100 mod 10),
               digitChar (x div 10 mod 10), digitChar (x mod 10)]"
proof -
  consider "x < 10" | "10 \<le> x" "x < 100" | "100 \<le> x" "x < 1000" | "1000 \<le> x"
    by linarith
  then show ?thesis
  proof cases
    case 1
    then show ?thesis using assms by (simp add: appendInt_def utoa_1 zero_char eval_nat_numeral)
  next
    case 2
    then show ?thesis using assms by (simp add: appendInt_def utoa_2 zero_char eval_nat_numeral)
  next
    case 3
    then show ?thesis using assms by (simp add: appendInt_def utoa_3 zero_char)
  next
    case 4
    then show ?thesis using assms by (simp add: appendInt_def utoa_4)
  qed
qed

lemma getnum_2:
  assumes "0 \<le> x" "x < 100"
  shows "getnum [digitChar (x div 10), digitChar (x mod 10)] = Some x"
proof -
  have "0 \<le> x div 10" "x div 10 < 10" "0 \<le> x mod 10" "x mod 10 < 10"
    using assms by simp_all
  then show ?thesis
    by (simp add: getnum_def digitsVal_def digitChar_props)
qed

lemma getnum_4:
  assumes "0 \<le> x" "x < 10000"
  shows "getnum [digitChar (x div 1000), digitChar (x div 100 mod 10),
               digitChar (x div 10 mod 10), digitChar (x mod 10)] = Some x"
proof -
  have "0 \<le> x div 1000" "x div 1000 < 10" "0 \<le> x div 100 mod 10" "x div 100 mod 10 < 10"
    "0 \<le> x div 10 mod 10" "x div 10 mod 10 < 10" "0 \<le> x mod 10" "x mod 10 < 10"
    using assms by simp_all
  then have g: "getnum [digitChar (x div 1000), digitChar (x div 100 mod 10),
               digitChar (x div 10 mod 10), digitChar (x mod 10)]
     = Some (10 * (10 * (10 * (x div 1000) + x div 100 mod 10) + x div 10 mod 10) + x mod 10)"
    by (simp add: getnum_def digitsVal_def digitChar_props)
  have e: "10 * (10 * (10 * (x div 1000) + x div 100 mod 10) + x div 10 mod 10) + x mod 10 = x"
  proof -
    define a b c d e f where "a = x div 1000" and "b = x div 100 mod 10" and "c = x div 10 mod 10"
      and "d = x mod 10" and "e = x div 100" and "f = x div 10"
    have "e = 10 * a + b"
      unfolding a_def b_def e_def using mult_div_mod_eq [of 10 "x div 100"]
      by (simp add: div_100_10)
    moreover have "f = 10 * e + c"
      unfolding c_def e_def f_def using mult_div_mod_eq [of 10 "x div 10"]
      by (simp add: div_10_10)
    moreover have "x = 10 * f + d" unfolding f_def d_def by simp
    ultimately have "10 * (10 * (10 * a + b) + c) + d = x" by simp
    then show ?thesis unfolding a_def b_def c_def d_def .
  qed
  show ?thesis unfolding g e ..
qed


lemma formatZone_shape:
  "formatZone off = ''Z''
   \<or> (\<exists>a b c d. formatZone off = [CHR ''+'', a, b, CHR '':'', c, d])
   \<or> (\<exists>a b c d. formatZone off = [CHR ''-'', a, b, CHR '':'', c, d])"
   if "\<bar>off\<bar> < 86400" for off :: int
proof (cases "off = 0")
  case True
  then show ?thesis by (simp add: formatZone_def)
next
  case False
  define z where "z = \<bar>truncDiv off 60\<bar>"
  have z: "0 \<le> z" "z < 1440"
    using that by (auto simp: z_def truncDiv_def abs_mult sgn_if)
  then have "0 \<le> z div 60" "z div 60 < 100" "0 \<le> z mod 60" "z mod 60 < 100" by auto
  then show ?thesis using False
    by (auto simp: formatZone_def Let_def z_def [symmetric] appendInt_2)
qed

lemma parseFraction_formatZone:
  "\<bar>off\<bar> < 86400 \<Longrightarrow> parseFraction (formatZone off) = (0, formatZone off)"
  using formatZone_shape [of off] by (auto simp: parseFraction_def)

lemma length_formatZone: "\<bar>off\<bar> < 86400 \<Longrightarrow> 0 < length (formatZone off)"
  using formatZone_shape [of off] by auto

lemma parseZone_formatZone:
  assumes "off mod 60 = 0" "\<bar>off\<bar> < 86400"
  shows "parseZone (formatZone off) = Some off"
proof (cases "off = 0")
  case True
  then show ?thesis by (simp add: formatZone_def parseZone_def)
next
  case False
  define z where "z = \<bar>off\<bar> div 60"
  have "60 dvd off" using assms(1) by (simp add: mod_eq_0_iff_dvd)
  then have "60 dvd \<bar>off\<bar>" by simp
  then have off: "\<bar>off\<bar> = 60 * z" unfolding z_def by simp
  have z: "0 < z" "z < 1440" using off assms(2) False by linarith+
  have hm: "0 \<le> z div 60" "z div 60 < 100" "0 \<le> z mod 60" "z mod 60 < 100" "z div 60 < 24"
    using z by auto
  have td: "truncDiv off 60 = (if off < 0 then - z else z)"
    using False by (simp add: truncDiv_def sgn_if z_def)
  have fz: "formatZone off
      = (if off < 0 then CHR ''-'' else CHR ''+'')
          # [digitChar (z div 60 div 10), digitChar (z div 60 mod 10), CHR '':'',
             digitChar (z mod 60 div 10), digitChar (z mod 60 mod 10)]"
    using False z hm by (simp add: formatZone_def td Let_def appendInt_2)
  have val: "z div 60 * 3600 + z mod 60 * 60 = 60 * z"
    using mult_div_mod_eq [of 60 z] by linarith
  have "parseZone (formatZone off)
      = Some ((if off < 0 then - 1 else 1) * (z div 60 * 3600 + z mod 60 * 60))"
    unfolding fz using hm by (simp add: parseZone_def getnum_2)
  also have "(if off < 0 then - 1 else 1) * (z div 60 * 3600 + z mod 60 * 60) = off"
    unfolding val using off by (auto simp: abs_if split: if_splits)
  finally show ?thesis .
qed


lemma Parse_formatted:
  assumes "0 \<le> y" "y < 10000" "1 \<le> mo" "mo \<le> 12" "1 \<le> d" "d \<le> daysIn mo (isLeap y)"
    "d < 100" "0 \<le> hh" "hh < 24" "0 \<le> mi" "mi < 60" "0 \<le> ss" "ss < 60"
    "off mod 60 = 0" "\<bar>off\<bar> < 86400"
  shows "Parse (appendInt y 4 @ ''-'' @ appendInt mo 2 @ ''-'' @ appendInt d 2 @ ''T''
           @ appendInt hh 2 @ '':'' @ appendInt mi 2 @ '':'' @ appendInt ss 2 @ formatZone off)
         = Some (time_Date y mo d hh mi ss 0 off)"
proof -
  define zone where "zone = formatZone off"
  have zl: "0 < length zone" unfolding zone_def using assms(15) by (rule length_formatZone)
  have pf: "parseFraction zone = (0, zone)"
    unfolding zone_def using assms(15) by (rule parseFraction_formatZone)
  have pz: "parseZone zone = Some off"
    unfolding zone_def using assms(14,15) by (rule parseZone_formatZone)
  have s: "appendInt y 4 @ ''-'' @ appendInt mo 2 @ ''-'' @ appendInt d 2 @ ''T''
           @ appendInt hh 2 @ '':'' @ appendInt mi 2 @ '':'' @ appendInt ss 2 @ zone
     = digitChar (y div 1000) # digitChar (y div 100 mod 10) # digitChar (y div 10 mod 10)
         # digitChar (y mod 10) # CHR ''-'' # digitChar (mo div 10) # digitChar (mo mod 10)
         # CHR ''-'' # digitChar (d div 10) # digitChar (d mod 10) # CHR ''T''
         # digitChar (hh div 10) # digitChar (hh mod 10) # CHR '':''
         # digitChar (mi div 10) # digitChar (mi mod 10) # CHR '':''
         # digitChar (ss div 10) # digitChar (ss mod 10) # zone"
    using assms by (simp add: appendInt_2 appendInt_4)
  have g: "getnum [digitChar (y div 1000), digitChar (y div 100 mod 10),
               digitChar (y div 10 mod 10), digitChar (y mod 10)] = Some y"
    "getnum [digitChar (mo div 10), digitChar (mo mod 10)] = Some mo"
    "getnum [digitChar (d div 10), digitChar (d mod 10)] = Some d"
    "getnum [digitChar (hh div 10), digitChar (hh mod 10)] = Some hh"
    "getnum [digitChar (mi div 10), digitChar (mi mod 10)] = Some mi"
    "getnum [digitChar (ss div 10), digitChar (ss mod 10)] = Some ss"
    using assms by (simp_all add: getnum_2 getnum_4)
  show ?thesis
    unfolding zone_def [symmetric] s Parse_def
    using assms zl by (simp add: g pf pz)
qed


lemma daysIn_le_31: "1 \<le> m \<Longrightarrow> m \<le> 12 \<Longrightarrow> daysIn m leap \<le> 31"
proof -
  assume "1 \<le> m" "m \<le> 12"
  then have "m = 1 \<or> m = 2 \<or> m = 3 \<or> m = 4 \<or> m = 5 \<or> m = 6 \<or> m = 7 \<or> m = 8 \<or> m = 9
      \<or> m = 10 \<or> m = 11 \<or> m = 12" by arith
  then show ?thesis by (auto simp: daysIn_def daysBefore_def)
qed

lemma clock_fields:
  fixes secs :: int
  assumes "0 \<le> secs" "secs < 86400"
  shows "0 \<le> secs div 3600" "secs div 3600 < 24"
    "0 \<le> secs mod 3600 div 60" "secs mod 3600 div 60 < 60"
    "0 \<le> secs mod 60" "secs mod 60 < 60"
    "secs div 3600 * 3600 + secs mod 3600 div 60 * 60 + secs mod 60 = secs"
proof -
  show "0 \<le> secs div 3600" "secs div 3600 < 24" using assms by auto
  show "0 \<le> secs mod 3600 div 60" "0 \<le> secs mod 60" "secs mod 60 < 60" by auto
  have "secs mod 3600 < 3600" by simp
  then show "secs mod 3600 div 60 < 60" by auto
  define r a b c where "r = secs mod 3600" and "a = secs div 3600" and "b = secs mod 3600 div 60"
    and "c = secs mod 60"
  have "r mod 60 = c" unfolding r_def c_def by (simp add: mod_mod_cancel)
  then have "b * 60 + c = r"
    using mult_div_mod_eq [of 60 r] unfolding b_def r_def by (simp add: mult.commute)
  moreover have "a * 3600 + r = secs"
    unfolding r_def a_def using mult_div_mod_eq [of 3600 secs] by (simp add: mult.commute)
  ultimately have "a * 3600 + b * 60 + c = secs" by simp
  then show "secs div 3600 * 3600 + secs mod 3600 div 60 * 60 + secs mod 60 = secs"
    unfolding a_def b_def c_def .
qed

text \<open>
  Claim C6, amended. For a timestamp whose year in its own zone is within 0..9999 and
  whose zone offset is a whole number of minutes of less than a day, writing it in the
  log's text form and parsing it back gives the same zone offset and the instant cut
  down to its whole second. A timestamp with no fraction of a second comes back
  exactly.
\<close>

theorem timestamp_round_trip:
  assumes "0 \<le> fst (Date t)" "fst (Date t) < 10000"
    and "offset t mod 60 = 0" "\<bar>offset t\<bar> < 86400"
  shows "Parse (FormatRFC3339 t) = Some (t\<lparr>unixNano := unixNano t - unixNano t mod 1000000000\<rparr>)
    \<and> (unixNano t mod 1000000000 = 0 \<longrightarrow> Parse (FormatRFC3339 t) = Some t)"
proof -
  obtain y mo d where ymd: "Date t = (y, mo, d)" by (metis prod_cases3)
  define day where "day = localSeconds t div 86400"
  define secs where "secs = localSeconds t mod 86400"
  have abs: "absDate day = (y, mo, d)" using ymd by (simp add: Date_def day_def)
  have cal: "dateToDays y mo d = day" "1 \<le> mo" "mo \<le> 12" "1 \<le> d" "d \<le> daysIn mo (isLeap y)"
    using dateToDays_absDate [OF abs, of 0] by simp_all
  have d100: "d < 100" using cal daysIn_le_31 [of mo "isLeap y"] by linarith
  have y: "0 \<le> y" "y < 10000" using assms(1,2) ymd by simp_all
  have sr: "0 \<le> secs" "secs < 86400" by (simp_all add: secs_def)
  note cf = clock_fields [OF sr]
  have fmt: "FormatRFC3339 t
      = appendInt y 4 @ ''-'' @ appendInt mo 2 @ ''-'' @ appendInt d 2 @ ''T''
           @ appendInt (secs div 3600) 2 @ '':'' @ appendInt (secs mod 3600 div 60) 2 @ '':''
           @ appendInt (secs mod 60) 2 @ formatZone (offset t)"
    by (simp add: FormatRFC3339_def FormatDate_def ymd secs_def Let_def)
  have "Parse (FormatRFC3339 t)
      = Some (time_Date y mo d (secs div 3600) (secs mod 3600 div 60) (secs mod 60) 0 (offset t))"
    unfolding fmt using y cal(2-5) d100 cf(1-6) assms(3,4) by (rule Parse_formatted)
  moreover have "time_Date y mo d (secs div 3600) (secs mod 3600 div 60) (secs mod 60) 0 (offset t)
      = t\<lparr>unixNano := unixNano t - unixNano t mod 1000000000\<rparr>"
  proof -
    have "day * 86400 + secs = localSeconds t"
      unfolding day_def secs_def by (simp add: mult.commute)
    then have "day * 86400 + secs div 3600 * 3600 + secs mod 3600 div 60 * 60 + secs mod 60
        - offset t = unixNano t div 1000000000"
      using cf(7) by (simp add: localSeconds_def)
    moreover have "unixNano t div 1000000000 * 1000000000
        = unixNano t - unixNano t mod 1000000000"
      by (simp add: minus_mod_eq_div_mult)
    ultimately show ?thesis by (simp add: time_Date_def cal(1))
  qed
  ultimately show ?thesis by simp
qed

theorem timestamp_round_trip_witness:
  "0 \<le> fst (Date \<lparr>unixNano = 1704225845000000000, offset = - 18000\<rparr>)
   \<and> fst (Date \<lparr>unixNano = 1704225845000000000, offset = - 18000\<rparr>) < 10000
   \<and> offset \<lparr>unixNano = 1704225845000000000, offset = - 18000\<rparr> mod 60 = 0
   \<and> \<bar>offset \<lparr>unixNano = 1704225845000000000, offset = - 18000\<rparr>\<bar> < 86400
   \<and> unixNano \<lparr>unixNano = 1704225845000000000, offset = - 18000\<rparr> mod 1000000000 = 0
   \<and> Parse (FormatRFC3339 \<lparr>unixNano = 1704225845000000000, offset = - 18000\<rparr>)
       = Some \<lparr>unixNano = 1704225845000000000, offset = - 18000\<rparr>"
proof -
  let ?t = "\<lparr>unixNano = 1704225845000000000, offset = - 18000\<rparr>"
  have y: "fst (Date ?t) = 2024" by code_simp
  have h1: "0 \<le> fst (Date ?t)" and h2: "fst (Date ?t) < 10000" using y by simp_all
  have h3: "offset ?t mod 60 = 0" by simp
  have h4: "\<bar>offset ?t\<bar> < 86400" by simp
  have h5: "unixNano ?t mod 1000000000 = 0" by simp
  from timestamp_round_trip [OF h1 h2 h3 h4, THEN conjunct2] h5
  have "Parse (FormatRFC3339 ?t) = Some ?t" by (rule mp)
  then show ?thesis using h1 h2 h3 h4 h5 by simp
qed

end
